theory Spec2Isabelle
  imports Main
begin

section \<open>JavaScript values\<close>

text \<open>
  The values that cross the interface of \<open>LockingMechanism\<close>: the \<open>key\<close> argument
  (any JavaScript value, the code tests its \<open>typeof\<close>), the \<open>err\<close> argument a Redis
  callback receives, and the values a promise is rejected with. Numbers are the integers
  (timestamps in milliseconds, counts); an object is kept by its \<open>name\<close> and \<open>message\<close>
  fields, which is all the code ever builds.
\<close>

datatype jsval =
    JUndefined
  | JNull
  | JBool bool
  | JNum int
  | JStr string
  | JObj string string

fun typeof :: "jsval \<Rightarrow> string" where
  "typeof JUndefined = ''undefined''"
| "typeof JNull = ''object''"
| "typeof (JBool b) = ''boolean''"
| "typeof (JNum n) = ''number''"
| "typeof (JStr s) = ''string''"
| "typeof (JObj n m) = ''object''"

text \<open>\<open>if (err)\<close>: the truth value JavaScript gives a value.\<close>

fun truthy :: "jsval \<Rightarrow> bool" where
  "truthy JUndefined = False"
| "truthy JNull = False"
| "truthy (JBool b) = b"
| "truthy (JNum n) = (n \<noteq> 0)"
| "truthy (JStr s) = (s \<noteq> [])"
| "truthy (JObj n m) = True"

text \<open>\<open>err === 0\<close>: strict equality with the number 0 (no conversion).\<close>

fun strict_eq_zero :: "jsval \<Rightarrow> bool" where
  "strict_eq_zero (JNum n) = (n = 0)"
| "strict_eq_zero _ = False"

text \<open>The object \<open>{name: "key error", message: "key must be string"}\<close>.\<close>

definition keyError :: jsval where
  "keyError = JObj ''key error'' ''key must be string''"

text \<open>
  The state of a promise once the operation has run: resolved with a value, rejected with
  a value, or never settled. The last arises in \<open>lock\<close>: its body is an \<open>async\<close>
  executor, so an \<open>await\<close> that throws rejects the executor's own promise, which nobody
  holds, and neither \<open>resolve\<close> nor \<open>reject\<close> of the promise returned to the caller is
  ever called.
\<close>

datatype 'a outcome = Resolved 'a | Rejected jsval | Unsettled

text \<open>A parameter with a default: \<open>None\<close> is an argument left out (\<open>undefined\<close>).\<close>

fun dflt :: "int \<Rightarrow> int option \<Rightarrow> int" where
  "dflt d None = d"
| "dflt d (Some v) = v"

section \<open>The key-value store\<close>

text \<open>
  What the conversion of a string to a number gives, as far as a comparison with an integer
  can tell: not a number, an infinity, or a finite number, kept by its integer part (the
  number rounded down). The clock's reading \<open>now\<close> is an integer, and for a finite
  number \<open>d\<close> and an integer \<open>now\<close>, \<open>d >= now\<close> holds exactly when
  \<open>now\<close> is at most the integer part of \<open>d\<close>, and \<open>d < now\<close> exactly when the
  integer part of \<open>d\<close> is below \<open>now\<close>. Every comparison with NaN is false.
\<close>

datatype jsnum = NaN | NegInfinity | IntPart int | PosInfinity

fun num_ge :: "jsnum \<Rightarrow> int \<Rightarrow> bool" where
  "num_ge NaN now = False"
| "num_ge NegInfinity now = False"
| "num_ge (IntPart d) now = (now \<le> d)"
| "num_ge PosInfinity now = True"

fun num_lt :: "jsnum \<Rightarrow> int \<Rightarrow> bool" where
  "num_lt NaN now = False"
| "num_lt NegInfinity now = True"
| "num_lt (IntPart d) now = (d < now)"
| "num_lt PosInfinity now = False"

text \<open>
  A Redis string as the client sees it. \<open>RInt n\<close> is the decimal numeral of the integer
  \<open>n\<close>: what the client sends for the JavaScript number \<open>n\<close>, and what converts
  back to \<open>n\<close> (timestamps are far below \<open>2^53\<close>, where numbers are exact). \<open>RTxt s c\<close> is any other string \<open>s\<close>, kept together with the
  number \<open>c\<close> that JavaScript converts it to: \<open>5000.5\<close> comes with
  \<open>IntPart 5000\<close>, \<open>1e13\<close> with \<open>IntPart 10000000000000\<close>, \<open>abc\<close> with
  \<open>NaN\<close>. The conversion is the language's and not the program's, so a store is given
  with the conversion of each of its strings; what holds for every \<open>c\<close> holds for the
  one JavaScript computes. The empty string is falsy and converts to 0.
\<close>

datatype rval = RInt int | RTxt string jsnum

fun to_number :: "rval \<Rightarrow> jsnum" where
  "to_number (RInt n) = IntPart n"
| "to_number (RTxt s c) = (if s = [] then IntPart 0 else c)"

text \<open>
  \<open>rtruthy v\<close> is the truth value of the string, \<open>rge v now\<close> is \<open>v >= now\<close> and
  \<open>rlt v now\<close> is \<open>v < now\<close>, the string converted to a number.
\<close>

fun rtruthy :: "rval \<Rightarrow> bool" where
  "rtruthy (RInt n) = True"
| "rtruthy (RTxt s c) = (s \<noteq> [])"

fun rge :: "rval \<Rightarrow> int \<Rightarrow> bool" where
  "rge v now = num_ge (to_number v) now"

fun rlt :: "rval \<Rightarrow> int \<Rightarrow> bool" where
  "rlt v now = num_lt (to_number v) now"

text \<open>
  \<open>v && v >= new Date().getTime()\<close>, for \<open>v\<close> the reply of GET or GETSET
  (\<open>None\<close> is the reply \<open>null\<close>).
\<close>

fun held :: "rval option \<Rightarrow> int \<Rightarrow> bool" where
  "held None now = False"
| "held (Some v) now = (rtruthy v \<and> rge v now)"

text \<open>
  The server and one connection to it. Every key carries a version, which each write to
  the key advances; WATCH notes the version of the key on the connection, and EXEC aborts
  when a noted version is no longer the key's version, that is, when a watched key was
  written since, by this or by another connection. EXEC forgets the watches either way.
\<close>

record world =
  store :: "string \<rightharpoonup> rval"
  version :: "string \<Rightarrow> nat"
  watches :: "(string \<times> nat) list"

definition touch :: "string \<Rightarrow> world \<Rightarrow> world" where
  "touch k w = w\<lparr>version := (version w)(k := Suc (version w k))\<rparr>"

definition set_key :: "string \<Rightarrow> rval \<Rightarrow> world \<Rightarrow> world" where
  "set_key k v w = touch k (w\<lparr>store := (store w)(k \<mapsto> v)\<rparr>)"

definition SETNX :: "string \<Rightarrow> rval \<Rightarrow> world \<Rightarrow> int \<times> world" where
  "SETNX k v w = (case store w k of None \<Rightarrow> (1, set_key k v w) | Some old \<Rightarrow> (0, w))"

definition GET :: "string \<Rightarrow> world \<Rightarrow> rval option" where
  "GET k w = store w k"

definition GETSET :: "string \<Rightarrow> rval \<Rightarrow> world \<Rightarrow> rval option \<times> world" where
  "GETSET k v w = (store w k, set_key k v w)"

definition DEL :: "string \<Rightarrow> world \<Rightarrow> int \<times> world" where
  "DEL k w =
     (case store w k of
        None \<Rightarrow> (0, w)
      | Some old \<Rightarrow> (1, touch k (w\<lparr>store := (store w)(k := None)\<rparr>)))"

definition WATCH :: "string \<Rightarrow> world \<Rightarrow> world" where
  "WATCH k w = w\<lparr>watches := (k, version w k) # watches w\<rparr>"

text \<open>Whether a watched key was written since it was watched.\<close>

definition dirty :: "world \<Rightarrow> bool" where
  "dirty w = (\<not> list_all (\<lambda>(k, n). version w k = n) (watches w))"

definition unwatch :: "world \<Rightarrow> world" where
  "unwatch w = w\<lparr>watches := []\<rparr>"

text \<open>
  \<open>multi().del(k).exec(cb)\<close>: the result the callback receives is \<open>None\<close> for \<open>null\<close>
  (aborted) and \<open>Some n\<close> for the one-element array \<open>[n]\<close>.
\<close>

definition MULTI_DEL_EXEC :: "string \<Rightarrow> world \<Rightarrow> int option \<times> world" where
  "MULTI_DEL_EXEC k w =
     (if dirty w then (None, unwatch w)
      else (case DEL k w of (n, w') \<Rightarrow> (Some n, unwatch w')))"

text \<open>
  \<open>multi().get(k1).get(k2).exec(cb)\<close>: \<open>None\<close> for \<open>null\<close> (aborted) and
  \<open>Some (a, b)\<close> for the array \<open>[a, b]\<close>.
\<close>

definition MULTI_GET_GET_EXEC ::
  "string \<Rightarrow> string \<Rightarrow> world \<Rightarrow> (rval option \<times> rval option) option \<times> world" where
  "MULTI_GET_GET_EXEC k1 k2 w =
     (if dirty w then (None, unwatch w)
      else (Some (GET k1 w, GET k2 w), unwatch w))"

text \<open>What other connections do to the store while this one waits.\<close>

datatype cmd = Set string rval | Del string

fun apply_cmd :: "cmd \<Rightarrow> world \<Rightarrow> world" where
  "apply_cmd (Set k v) w = set_key k v w"
| "apply_cmd (Del k) w = snd (DEL k w)"

fun others :: "cmd list \<Rightarrow> world \<Rightarrow> world" where
  "others [] w = w"
| "others (c # cs) w = others cs (apply_cmd c w)"

section \<open>LockingMechanism\<close>

definition makeKey :: "string \<Rightarrow> string" where
  "makeKey key = ''lock-'' @ key"

text \<open>\<open>_getTimeOut(ttl)\<close>, with the clock's reading made a parameter.\<close>

definition getTimeOut :: "int \<Rightarrow> int \<Rightarrow> int" where
  "getTimeOut now ttl = now + ttl"

text \<open>
  What one call of \<open>lock\<close> meets on its way, in the order the code consumes it: the
  clock's four readings, the \<open>err\<close> of each of the three awaited commands (a falsy value
  when the command went through), and what other connections wrote while the call was
  waiting for a reply (before GET, before GETSET) or before the WATCH it sent reached
  the server.
\<close>

record lock_env =
  t_setnx :: int
  err_setnx :: jsval
  others_get :: "cmd list"
  err_get :: jsval
  t_get :: int
  t_getset :: int
  others_getset :: "cmd list"
  err_getset :: jsval
  t_prev :: int
  others_watch :: "cmd list"

definition lock :: "jsval \<Rightarrow> int option \<Rightarrow> lock_env \<Rightarrow> world \<Rightarrow> int outcome \<times> world" where
  "lock key ttl_arg e w =
     (let ttl = dflt 300 ttl_arg in
      case key of
        JStr k \<Rightarrow>
          (let lockKey = makeKey k;
               lockTimeOut = getTimeOut (t_setnx e) ttl
           in if truthy (err_setnx e) then (Unsettled, w)
              else case SETNX lockKey (RInt lockTimeOut) w of (tryToLock, w1) \<Rightarrow>
                if tryToLock = 1 then (Resolved 1, WATCH lockKey (others (others_watch e) w1))
                else
                  (let w2 = others (others_get e) w1
                   in if truthy (err_get e) then (Unsettled, w2)
                      else
                        (let currentLockTimestamp = GET lockKey w2
                         in if held currentLockTimestamp (t_get e) then (Resolved 0, w2)
                            else
                              (let lockTimeOut = getTimeOut (t_getset e) ttl;
                                   w3 = others (others_getset e) w2
                               in if truthy (err_getset e) then (Unsettled, w3)
                                  else case GETSET lockKey (RInt lockTimeOut) w3 of
                                    (prevLockTimeStamp, w4) \<Rightarrow>
                                      if held prevLockTimeStamp (t_prev e) then (Resolved 0, w4)
                                      else (Resolved 1,
                                            WATCH lockKey (others (others_watch e) w4))))))
      | _ \<Rightarrow> (Rejected keyError, w))"

text \<open>
  \<open>unlock(key)\<close>; \<open>err\<close> is the first argument of the \<open>exec\<close> callback. A transaction
  that failed with an error did not run.
\<close>

definition unlock :: "jsval \<Rightarrow> jsval \<Rightarrow> world \<Rightarrow> int outcome \<times> world" where
  "unlock key err w =
     (case key of
        JStr k \<Rightarrow>
          (let lockKey = makeKey k
           in if truthy err then (Rejected err, w)
              else case MULTI_DEL_EXEC lockKey w of
                     (None, w') \<Rightarrow> (Resolved 0, w')
                   | (Some n, w') \<Rightarrow> (Resolved n, w'))
      | _ \<Rightarrow> (Rejected keyError, w))"

text \<open>
  \<open>readWithLock(key)\<close>; \<open>err\<close> is the first argument of the \<open>exec\<close> callback and
  \<open>now\<close> the clock's reading in the callback.
\<close>

definition readWithLock ::
  "jsval \<Rightarrow> jsval \<Rightarrow> int \<Rightarrow> world \<Rightarrow> rval option outcome \<times> world" where
  "readWithLock key err now w =
     (case key of
        JStr k \<Rightarrow>
          (let lockKey = makeKey k
           in if truthy err then (Rejected err, w)
              else case MULTI_GET_GET_EXEC lockKey k w of
                     (None, w') \<Rightarrow> (Rejected (JNum 0), w')
                   | (Some (currentLockTimestamp, v), w') \<Rightarrow>
                       if held currentLockTimestamp now then (Rejected (JNum 0), w')
                       else (Resolved v, w'))
      | _ \<Rightarrow> (Rejected keyError, w))"

text \<open>
  \<open>_sleep(milliseconds)\<close>: the caller is suspended and other connections go on
  writing. The time that passes shows in the clock's later readings.
\<close>

definition sleep :: "int \<Rightarrow> cmd list \<Rightarrow> world \<Rightarrow> world" where
  "sleep milliseconds slp w = others slp w"

text \<open>What a retry loop does, in order: the calls it makes and the sleeps it takes.\<close>

datatype event = CallLock jsval int | CallRead jsval | Sleep int

text \<open>
  The \<open>while\<close> loop of \<open>retryableLock\<close>. The schedule gives, for each attempt, what
  the call of \<open>lock\<close> meets and what other connections write during the sleep after it.
  The loop may run forever; \<open>None\<close> says that the schedule ended before the promise
  settled. An \<open>await\<close> of a promise that never settles never returns.
\<close>

fun retryableLock_loop ::
  "bool \<Rightarrow> int \<Rightarrow> jsval \<Rightarrow> int \<Rightarrow> int \<Rightarrow> int \<Rightarrow> (lock_env \<times> cmd list) list \<Rightarrow> world
     \<Rightarrow> (int outcome \<times> world \<times> event list) option" where
  "retryableLock_loop keepRetrying maxAttempts key ttl retryAfter attempts [] w =
     (if keepRetrying \<or> attempts < maxAttempts then None
      else Some (Resolved 0, w, []))"
| "retryableLock_loop keepRetrying maxAttempts key ttl retryAfter attempts ((e, slp) # rest) w =
     (if keepRetrying \<or> attempts < maxAttempts then
        (case lock key (Some ttl) e w of
           (Rejected err, w') \<Rightarrow> Some (Rejected err, w', [CallLock key ttl])
         | (Unsettled, w') \<Rightarrow> Some (Unsettled, w', [CallLock key ttl])
         | (Resolved result, w') \<Rightarrow>
             if result = 1 then Some (Resolved 1, w', [CallLock key ttl])
             else
               (case retryableLock_loop keepRetrying maxAttempts key ttl retryAfter
                       (attempts + 1) rest (sleep retryAfter slp w') of
                  None \<Rightarrow> None
                | Some (out, w'', tr) \<Rightarrow>
                    Some (out, w'', CallLock key ttl # Sleep retryAfter # tr)))
      else Some (Resolved 0, w, []))"

definition retryableLock ::
  "jsval \<Rightarrow> int option \<Rightarrow> int option \<Rightarrow> int option \<Rightarrow> (lock_env \<times> cmd list) list \<Rightarrow> world
     \<Rightarrow> (int outcome \<times> world \<times> event list) option" where
  "retryableLock key ttl_arg retryAfter_arg maxAttempts_arg sched w =
     (let ttl = dflt 500 ttl_arg;
          retryAfter = dflt 150 retryAfter_arg;
          maxAttempts = dflt 0 maxAttempts_arg;
          keepRetrying = (maxAttempts < 1);
          attempts = 0
      in retryableLock_loop keepRetrying maxAttempts key ttl retryAfter attempts sched w)"

text \<open>
  The \<open>while\<close> loop of \<open>readWithRetryableLock\<close>. The schedule gives, for each
  attempt, the \<open>err\<close> and the clock's reading that \<open>readWithLock\<close> meets and what
  other connections write during the sleep after it.
\<close>

fun readWithRetryableLock_loop ::
  "bool \<Rightarrow> int \<Rightarrow> jsval \<Rightarrow> int \<Rightarrow> int \<Rightarrow> (jsval \<times> int \<times> cmd list) list \<Rightarrow> world
     \<Rightarrow> (rval option outcome \<times> world \<times> event list) option" where
  "readWithRetryableLock_loop keepRetrying maxAttempts key retryAfter attempts [] w =
     (if keepRetrying \<or> attempts < maxAttempts then None
      else Some (Rejected (JNum 0), w, []))"
| "readWithRetryableLock_loop keepRetrying maxAttempts key retryAfter attempts
       ((ex, now, slp) # rest) w =
     (if keepRetrying \<or> attempts < maxAttempts then
        (case readWithLock key ex now w of
           (Rejected err, w') \<Rightarrow>
             if \<not> strict_eq_zero err then Some (Rejected err, w', [CallRead key])
             else
               (case readWithRetryableLock_loop keepRetrying maxAttempts key retryAfter
                       (attempts + 1) rest (sleep retryAfter slp w') of
                  None \<Rightarrow> None
                | Some (out, w'', tr) \<Rightarrow>
                    Some (out, w'', CallRead key # Sleep retryAfter # tr))
         | (Unsettled, w') \<Rightarrow> Some (Unsettled, w', [CallRead key])
         | (Resolved result, w') \<Rightarrow> Some (Resolved result, w', [CallRead key]))
      else Some (Rejected (JNum 0), w, []))"

definition readWithRetryableLock ::
  "jsval \<Rightarrow> int option \<Rightarrow> int option \<Rightarrow> (jsval \<times> int \<times> cmd list) list \<Rightarrow> world
     \<Rightarrow> (rval option outcome \<times> world \<times> event list) option" where
  "readWithRetryableLock key retryAfter_arg maxAttempts_arg sched w =
     (let retryAfter = dflt 150 retryAfter_arg;
          maxAttempts = dflt 0 maxAttempts_arg;
          keepRetrying = (maxAttempts < 1);
          attempts = 0
      in readWithRetryableLock_loop keepRetrying maxAttempts key retryAfter attempts sched w)"

section \<open>The words of the specification\<close>

text \<open>
  The specification's conditions on a reply, as it words them: ``present and \<open>>= now\<close>''
  and ``absent or \<open>< now\<close>''. A reply is an expiry when it is absent or a timestamp.
\<close>

fun present_ge :: "rval option \<Rightarrow> int \<Rightarrow> bool" where
  "present_ge None now = False"
| "present_ge (Some v) now = rge v now"

fun absent_or_lt :: "rval option \<Rightarrow> int \<Rightarrow> bool" where
  "absent_or_lt None now = True"
| "absent_or_lt (Some v) now = rlt v now"

fun is_expiry :: "rval option \<Rightarrow> bool" where
  "is_expiry None = True"
| "is_expiry (Some (RInt n)) = True"
| "is_expiry (Some (RTxt s c)) = False"

text \<open>
  The runs of the retry loops that the specification speaks of: every attempt of the
  schedule resolves not acquired (fails as contended), and the world such a run leaves.
\<close>

fun all_not_acquired :: "jsval \<Rightarrow> int \<Rightarrow> (lock_env \<times> cmd list) list \<Rightarrow> world \<Rightarrow> bool" where
  "all_not_acquired key ttl [] w = True"
| "all_not_acquired key ttl ((e, slp) # rest) w =
     (fst (lock key (Some ttl) e w) = Resolved 0 \<and>
      all_not_acquired key ttl rest (others slp (snd (lock key (Some ttl) e w))))"

fun after_not_acquired :: "jsval \<Rightarrow> int \<Rightarrow> (lock_env \<times> cmd list) list \<Rightarrow> world \<Rightarrow> world" where
  "after_not_acquired key ttl [] w = w"
| "after_not_acquired key ttl ((e, slp) # rest) w =
     after_not_acquired key ttl rest (others slp (snd (lock key (Some ttl) e w)))"

fun all_contended :: "jsval \<Rightarrow> (jsval \<times> int \<times> cmd list) list \<Rightarrow> world \<Rightarrow> bool" where
  "all_contended key [] w = True"
| "all_contended key ((ex, now, slp) # rest) w =
     (fst (readWithLock key ex now w) = Rejected (JNum 0) \<and>
      all_contended key rest (others slp (snd (readWithLock key ex now w))))"

fun after_contended :: "jsval \<Rightarrow> (jsval \<times> int \<times> cmd list) list \<Rightarrow> world \<Rightarrow> world" where
  "after_contended key [] w = w"
| "after_contended key ((ex, now, slp) # rest) w =
     after_contended key rest (others slp (snd (readWithLock key ex now w)))"

subsection \<open>Example worlds\<close>

text \<open>
  An empty store; a store where the lock of \<open>k\<close> is held until 5000; one where it
  expired at 100. A quiet call of \<open>lock\<close> at time 1000, one at time 6000, and one
  during which another connection takes the lock between our GET and our GETSET.
\<close>

definition world0 :: world where
  "world0 = \<lparr>store = Map.empty, version = (\<lambda>k. 0), watches = []\<rparr>"

definition world_held :: world where
  "world_held = \<lparr>store = [''lock-k'' \<mapsto> RInt 5000, ''k'' \<mapsto> RTxt ''v'' NaN], version = (\<lambda>k. 0), watches = []\<rparr>"

definition world_stale :: world where
  "world_stale = \<lparr>store = [''lock-k'' \<mapsto> RInt 100], version = (\<lambda>k. 0), watches = []\<rparr>"

definition env0 :: lock_env where
  "env0 = \<lparr>t_setnx = 1000, err_setnx = JNull, others_get = [], err_get = JNull, t_get = 1001,
     t_getset = 1002, others_getset = [], err_getset = JNull, t_prev = 1003, others_watch = []\<rparr>"

definition env_race :: lock_env where
  "env_race = env0\<lparr>others_getset := [Set ''lock-k'' (RInt 1500)]\<rparr>"

definition env_late :: lock_env where
  "env_late = env0\<lparr>t_setnx := 6000, t_get := 6001, t_getset := 6002, t_prev := 6003\<rparr>"

text \<open>
  The stale lock of \<open>k\<close>, watched by this connection and then written again by another;
  a lock key that holds the numeral \<open>5000.5\<close>; and calls of \<open>lock\<close> during which
  the store fails one command with an error.
\<close>

definition world_touched :: world where
  "world_touched = others [Set ''lock-k'' (RInt 100)] (WATCH ''lock-k'' world_stale)"

definition world_fraction :: world where
  "world_fraction =
     \<lparr>store = [''lock-k'' \<mapsto> RTxt ''5000.5'' (IntPart 5000)], version = (\<lambda>k. 0), watches = []\<rparr>"

definition env_fault_setnx :: lock_env where
  "env_fault_setnx = env0\<lparr>err_setnx := JObj ''Error'' ''connection lost''\<rparr>"

definition env_fault_get :: lock_env where
  "env_fault_get = env0\<lparr>err_get := JObj ''Error'' ''connection lost''\<rparr>"

definition env_fault_getset :: lock_env where
  "env_fault_getset = env0\<lparr>err_getset := JObj ''Error'' ''connection lost''\<rparr>"

section \<open>Several calls of \<open>lock\<close> at once\<close>

text \<open>
  Calls of \<open>lock\<close> that race run each on its own connection against the one server,
  which serves one command at a time. A call is cut where it awaits a reply: its state is
  the command it has sent, with the expiry it computed for it, or its result. The promise
  is resolved with 1 as soon as the call has sent its WATCH, which it does not await.
\<close>

datatype pc =
    Called_setnx int
  | Called_get
  | Called_getset int
  | Called_watch
  | Finished int

fun resolution :: "pc \<Rightarrow> int option" where
  "resolution (Called_setnx v) = None"
| "resolution Called_get = None"
| "resolution (Called_getset v) = None"
| "resolution Called_watch = Some 1"
| "resolution (Finished r) = Some r"

text \<open>
  One step of a call: the server runs the command the call has sent, on the world as it is
  then, and the call runs on to its next command or to its end. \<open>t1\<close> is the clock's
  reading in the comparison with \<open>new Date().getTime()\<close> and \<open>t2\<close> the reading of
  the \<open>_getTimeOut\<close> that follows it. No command fails.
\<close>

fun call_step :: "string \<Rightarrow> int \<Rightarrow> int \<Rightarrow> int \<Rightarrow> pc \<Rightarrow> world \<Rightarrow> pc \<times> world" where
  "call_step lockKey ttl t1 t2 (Called_setnx lockTimeOut) w =
     (case SETNX lockKey (RInt lockTimeOut) w of (tryToLock, w1) \<Rightarrow>
        if tryToLock = 1 then (Called_watch, w1) else (Called_get, w1))"
| "call_step lockKey ttl t1 t2 Called_get w =
     (let currentLockTimestamp = GET lockKey w
      in if held currentLockTimestamp t1 then (Finished 0, w)
         else (Called_getset (getTimeOut t2 ttl), w))"
| "call_step lockKey ttl t1 t2 (Called_getset lockTimeOut) w =
     (case GETSET lockKey (RInt lockTimeOut) w of (prevLockTimeStamp, w4) \<Rightarrow>
        if held prevLockTimeStamp t1 then (Finished 0, w4) else (Called_watch, w4))"
| "call_step lockKey ttl t1 t2 Called_watch w = (Finished 1, WATCH lockKey w)"
| "call_step lockKey ttl t1 t2 (Finished r) w = (Finished r, w)"

text \<open>
  One call alone, with what other connections write between its commands: the steps of
  \<open>call_step\<close> in the order and with the readings of \<open>lock\<close>.
\<close>

definition call_alone :: "string \<Rightarrow> int \<Rightarrow> lock_env \<Rightarrow> world \<Rightarrow> pc \<times> world" where
  "call_alone lockKey ttl e w =
     (case call_step lockKey ttl 0 0 (Called_setnx (getTimeOut (t_setnx e) ttl)) w of
        (Called_get, w1) \<Rightarrow>
          (case call_step lockKey ttl (t_get e) (t_getset e) Called_get
                  (others (others_get e) w1) of
             (Called_getset v, w2) \<Rightarrow>
               (case call_step lockKey ttl (t_prev e) 0 (Called_getset v)
                       (others (others_getset e) w2) of
                  (Called_watch, w4) \<Rightarrow>
                    call_step lockKey ttl 0 0 Called_watch (others (others_watch e) w4)
                | (p, w4) \<Rightarrow> (p, w4))
           | (p, w2) \<Rightarrow> (p, w2))
      | (Called_watch, w1) \<Rightarrow>
          call_step lockKey ttl 0 0 Called_watch (others (others_watch e) w1)
      | (p, w1) \<Rightarrow> (p, w1))"

text \<open>
  The server's store and versions, and every call with the watches of its connection. A
  schedule names, step by step, the call whose command the server runs next and the clock's
  readings of that call.
\<close>

record system =
  sys_store :: "string \<rightharpoonup> rval"
  sys_version :: "string \<Rightarrow> nat"
  calls :: "(pc \<times> (string \<times> nat) list) list"

definition sys_step :: "string \<Rightarrow> int \<Rightarrow> nat \<times> int \<times> int \<Rightarrow> system \<Rightarrow> system" where
  "sys_step lockKey ttl x s =
     (case x of (i, t1, t2) \<Rightarrow>
        if i < length (calls s) then
          (case calls s ! i of (p, ws) \<Rightarrow>
             (case call_step lockKey ttl t1 t2 p
                     \<lparr>store = sys_store s, version = sys_version s, watches = ws\<rparr> of
                (p', w') \<Rightarrow>
                  \<lparr>sys_store = store w', sys_version = version w',
                   calls = (calls s)[i := (p', watches w')]\<rparr>))
        else s)"

fun run :: "string \<Rightarrow> int \<Rightarrow> (nat \<times> int \<times> int) list \<Rightarrow> system \<Rightarrow> system" where
  "run lockKey ttl [] s = s"
| "run lockKey ttl (x # xs) s = run lockKey ttl xs (sys_step lockKey ttl x s)"

definition start :: "world \<Rightarrow> int \<Rightarrow> int list \<Rightarrow> system" where
  "start w ttl ts =
     \<lparr>sys_store = store w, sys_version = version w,
      calls = map (\<lambda>t. (Called_setnx (getTimeOut t ttl), [])) ts\<rparr>"

definition outcome_of :: "system \<Rightarrow> nat \<Rightarrow> int option" where
  "outcome_of s j = resolution (fst (calls s ! j))"

text \<open>
  The steps a call still needs until its promise is resolved, when the lock is held
  throughout; and what holds of a race on a fresh key in which no expiry elapses: until the
  first SETNX arrives every call waits for its SETNX, and from then on the key holds one of
  the candidate expiries, one call has acquired and every other call has sent SETNX or GET
  or has resolved not acquired.
\<close>

fun need :: "pc \<Rightarrow> nat" where
  "need (Called_setnx v) = 2"
| "need Called_get = 1"
| "need (Called_getset v) = 1"
| "need Called_watch = 0"
| "need (Finished r) = 0"

definition waiting :: "int set \<Rightarrow> pc \<Rightarrow> bool" where
  "waiting E p \<longleftrightarrow> (\<exists>v\<in>E. p = Called_setnx v)"

definition race_inv :: "string \<Rightarrow> int set \<Rightarrow> nat \<Rightarrow> system \<Rightarrow> bool" where
  "race_inv lockKey E n s \<longleftrightarrow>
     length (calls s) = n \<and>
     (case sys_store s lockKey of
        None \<Rightarrow> (\<forall>j<n. waiting E (fst (calls s ! j)))
      | Some x \<Rightarrow>
          (\<exists>v\<in>E. x = RInt v) \<and>
          (\<exists>i<n. (fst (calls s ! i) = Called_watch \<or> fst (calls s ! i) = Finished 1) \<and>
             (\<forall>j<n. j \<noteq> i \<longrightarrow>
                waiting E (fst (calls s ! j)) \<or> fst (calls s ! j) = Called_get \<or>
                fst (calls s ! j) = Finished 0)))"

text \<open>Three calls at times 1000, 1001 and 1002, and a schedule that serves the second first.\<close>

definition race_sched :: "(nat \<times> int \<times> int) list" where
  "race_sched = [(1, 1003, 1003), (0, 1004, 1004), (2, 1005, 1005),
                 (0, 1006, 1006), (1, 1007, 1007), (2, 1008, 1008)]"

section \<open>Lemmas\<close>

lemmas store_defs = Let_def SETNX_def GET_def GETSET_def DEL_def WATCH_def set_key_def touch_def
  dirty_def unwatch_def MULTI_DEL_EXEC_def MULTI_GET_GET_EXEC_def makeKey_def getTimeOut_def

lemma sleep_others [simp]: "sleep milliseconds slp w = others slp w"
  by (simp add: sleep_def)

lemma others_watches: "watches (others cs w) = watches w"
proof (induction cs arbitrary: w)
  case Nil
  show ?case by simp
next
  case (Cons c cs)
  show ?case
    by (cases c) (simp_all add: Cons.IH set_key_def touch_def DEL_def split: option.splits)
qed

lemma held_present_ge: "0 < now \<Longrightarrow> held v now = present_ge v now"
  by (cases v rule: is_expiry.cases) auto

lemma held_absent_or_lt: "is_expiry v \<Longrightarrow> held v now = (\<not> absent_or_lt v now)"
  by (cases v rule: is_expiry.cases) auto

lemmas example_defs = world0_def world_held_def world_stale_def env0_def env_race_def env_late_def
  world_touched_def world_fraction_def env_fault_setnx_def env_fault_get_def env_fault_getset_def

lemma strict_eq_zero_iff: "strict_eq_zero x = (x = JNum 0)"
  by (cases x) auto

lemma truthy_not_zero: "truthy x \<Longrightarrow> x \<noteq> JNum 0"
  by auto

lemma loop_budget_spent:
  "\<not> attempts < maxAttempts \<Longrightarrow>
     retryableLock_loop False maxAttempts key ttl ra attempts sched w = Some (Resolved 0, w, [])"
  by (cases sched) auto

lemma loop_all_not_acquired:
  "all_not_acquired key ttl sched w \<Longrightarrow> int (length sched) = maxAttempts - attempts \<Longrightarrow>
     retryableLock_loop False maxAttempts key ttl ra attempts (sched @ extra) w =
       Some (Resolved 0, after_not_acquired key ttl sched w,
             concat (replicate (length sched) [CallLock key ttl, Sleep ra]))"
proof (induction sched arbitrary: attempts w)
  case Nil
  then show ?case by (simp add: loop_budget_spent)
next
  case (Cons a sched)
  obtain e slp where a: "a = (e, slp)" by (cases a)
  obtain w' where l: "lock key (Some ttl) e w = (Resolved 0, w')"
    using Cons.prems(1) a by (cases "lock key (Some ttl) e w") auto
  have rest: "all_not_acquired key ttl sched (others slp w')"
    using Cons.prems(1) a l by simp
  have len: "int (length sched) = maxAttempts - (attempts + 1)"
    using Cons.prems(2) by simp
  have lt: "attempts < maxAttempts"
    using Cons.prems(2) by simp
  show ?case
    using Cons.IH [OF rest len] a l lt by simp
qed

lemma loop_forever:
  "all_not_acquired key ttl sched w \<Longrightarrow>
     retryableLock_loop True maxAttempts key ttl ra attempts sched w = None"
proof (induction sched arbitrary: attempts w)
  case Nil
  show ?case by simp
next
  case (Cons a sched)
  obtain e slp where a: "a = (e, slp)" by (cases a)
  obtain w' where l: "lock key (Some ttl) e w = (Resolved 0, w')"
    using Cons.prems(1) a by (cases "lock key (Some ttl) e w") auto
  have rest: "all_not_acquired key ttl sched (others slp w')"
    using Cons.prems(1) a l by simp
  show ?case
    using Cons.IH [OF rest] a l by simp
qed

lemma loop_until_acquired:
  "all_not_acquired key ttl sched w \<Longrightarrow>
   fst (lock key (Some ttl) e (after_not_acquired key ttl sched w)) = Resolved 1 \<Longrightarrow>
     retryableLock_loop True maxAttempts key ttl ra attempts (sched @ (e, slp) # extra) w =
       Some (Resolved 1, snd (lock key (Some ttl) e (after_not_acquired key ttl sched w)),
             concat (replicate (length sched) [CallLock key ttl, Sleep ra]) @ [CallLock key ttl])"
proof (induction sched arbitrary: attempts w)
  case Nil
  then show ?case by (cases "lock key (Some ttl) e w") auto
next
  case (Cons a sched)
  obtain e' slp' where a: "a = (e', slp')" by (cases a)
  obtain w' where l: "lock key (Some ttl) e' w = (Resolved 0, w')"
    using Cons.prems(1) a by (cases "lock key (Some ttl) e' w") auto
  have rest: "all_not_acquired key ttl sched (others slp' w')"
    using Cons.prems(1) a l by simp
  have last: "fst (lock key (Some ttl) e (after_not_acquired key ttl sched (others slp' w'))) = Resolved 1"
    using Cons.prems(2) a l by simp
  show ?case
    using Cons.IH [OF rest last] a l by simp
qed

lemma count_rounds: "a \<noteq> b \<Longrightarrow> count_list (concat (replicate n [a, b])) a = n"
  by (induction n) auto

lemma read_loop_budget_spent:
  "\<not> attempts < maxAttempts \<Longrightarrow>
     readWithRetryableLock_loop False maxAttempts key ra attempts sched w =
       Some (Rejected (JNum 0), w, [])"
  by (cases sched) auto

lemma read_loop_all_contended:
  "all_contended key sched w \<Longrightarrow> int (length sched) = maxAttempts - attempts \<Longrightarrow>
     readWithRetryableLock_loop False maxAttempts key ra attempts (sched @ extra) w =
       Some (Rejected (JNum 0), after_contended key sched w,
             concat (replicate (length sched) [CallRead key, Sleep ra]))"
proof (induction sched arbitrary: attempts w)
  case Nil
  then show ?case by (simp add: read_loop_budget_spent)
next
  case (Cons a sched)
  obtain ex now slp where a: "a = (ex, now, slp)" by (cases a)
  obtain w' where r: "readWithLock key ex now w = (Rejected (JNum 0), w')"
    using Cons.prems(1) a by (cases "readWithLock key ex now w") auto
  have rest: "all_contended key sched (others slp w')"
    using Cons.prems(1) a r by simp
  have len: "int (length sched) = maxAttempts - (attempts + 1)"
    using Cons.prems(2) by simp
  have lt: "attempts < maxAttempts"
    using Cons.prems(2) by simp
  show ?case
    using Cons.IH [OF rest len] a r lt by simp
qed

lemma read_loop_error:
  "all_contended key fails w \<Longrightarrow>
   keep \<or> attempts + int (length fails) < maxAttempts \<Longrightarrow>
   readWithLock key ex now (after_contended key fails w) = (Rejected err, w') \<Longrightarrow>
   err \<noteq> JNum 0 \<Longrightarrow>
     readWithRetryableLock_loop keep maxAttempts key ra attempts
         (fails @ (ex, now, slp) # rest) w =
       Some (Rejected err, w',
             concat (replicate (length fails) [CallRead key, Sleep ra]) @ [CallRead key])"
proof (induction fails arbitrary: attempts w)
  case Nil
  then show ?case by (auto simp: strict_eq_zero_iff)
next
  case (Cons a fails)
  obtain ex' now' slp' where a: "a = (ex', now', slp')" by (cases a)
  obtain w1 where r: "readWithLock key ex' now' w = (Rejected (JNum 0), w1)"
    using Cons.prems(1) a by (cases "readWithLock key ex' now' w") auto
  have rest: "all_contended key fails (others slp' w1)"
    using Cons.prems(1) a r by simp
  have budget: "keep \<or> (attempts + 1) + int (length fails) < maxAttempts"
    using Cons.prems(2) by auto
  have last: "readWithLock key ex now (after_contended key fails (others slp' w1)) = (Rejected err, w')"
    using Cons.prems(3) a r by simp
  have enter: "keep \<or> attempts < maxAttempts"
    using Cons.prems(2) by auto
  show ?case
    using Cons.IH [OF rest budget last Cons.prems(4)] a r enter by auto
qed

lemma loop_trace:
  "retryableLock_loop keep maxAttempts key ttl ra attempts sched w = Some (out, w', tr) \<Longrightarrow>
     set tr \<subseteq> {CallLock key ttl, Sleep ra}"
proof (induction sched arbitrary: attempts w out w' tr)
  case Nil
  then show ?case by (auto split: if_splits)
next
  case (Cons a sched)
  obtain e slp where a: "a = (e, slp)" by (cases a)
  show ?case
  proof (cases "keep \<or> attempts < maxAttempts")
    case False
    then show ?thesis using Cons.prems a by auto
  next
    case True
    show ?thesis
    proof (cases "lock key (Some ttl) e w")
      case (Pair r w1)
      show ?thesis
      proof (cases r)
        case (Resolved n)
        show ?thesis
        proof (cases "n = 1")
          case True
          then show ?thesis using Cons.prems a \<open>keep \<or> attempts < maxAttempts\<close> Pair Resolved by auto
        next
          case False
          then obtain out1 w2 tr1 where
            rec: "retryableLock_loop keep maxAttempts key ttl ra (attempts + 1) sched (others slp w1) = Some (out1, w2, tr1)"
            and tr: "tr = CallLock key ttl # Sleep ra # tr1"
            using Cons.prems a \<open>keep \<or> attempts < maxAttempts\<close> Pair Resolved
            by (auto split: option.splits)
          show ?thesis using Cons.IH [OF rec] tr by auto
        qed
      next
        case (Rejected x)
        then show ?thesis using Cons.prems a True Pair by auto
      next
        case Unsettled
        then show ?thesis using Cons.prems a True Pair by auto
      qed
    qed
  qed
qed

lemma lock_as_steps:
  "\<not> truthy (err_setnx e) \<Longrightarrow> \<not> truthy (err_get e) \<Longrightarrow> \<not> truthy (err_getset e) \<Longrightarrow>
     lock (JStr k) ttl_arg e w =
       (case call_alone (makeKey k) (dflt 300 ttl_arg) e w of
          (p, w') \<Rightarrow> (case resolution p of Some r \<Rightarrow> Resolved r | None \<Rightarrow> Unsettled, w'))"
  by (auto simp: lock_def call_alone_def Let_def SETNX_def GETSET_def split: option.splits)

lemma need_resolution: "need p = 0 \<longleftrightarrow> resolution p \<noteq> None"
  by (cases p) auto

lemma sys_step_out: "\<not> i < length (calls s) \<Longrightarrow> sys_step lockKey ttl (i, t1, t2) s = s"
  by (simp add: sys_step_def)

lemma sys_step_length [simp]: "length (calls (sys_step lockKey ttl x s)) = length (calls s)"
  by (auto simp: sys_step_def split: prod.splits)

lemma sys_step_other:
  "j \<noteq> i \<Longrightarrow> calls (sys_step lockKey ttl (i, t1, t2) s) ! j = calls s ! j"
  by (auto simp: sys_step_def split: prod.splits)

lemma sys_step_self:
  "i < length (calls s) \<Longrightarrow>
     fst (calls (sys_step lockKey ttl (i, t1, t2) s) ! i) =
       fst (call_step lockKey ttl t1 t2 (fst (calls s ! i))
              \<lparr>store = sys_store s, version = sys_version s, watches = snd (calls s ! i)\<rparr>)"
  by (auto simp: sys_step_def split: prod.splits)

lemma sys_step_store:
  "i < length (calls s) \<Longrightarrow>
     sys_store (sys_step lockKey ttl (i, t1, t2) s) =
       store (snd (call_step lockKey ttl t1 t2 (fst (calls s ! i))
              \<lparr>store = sys_store s, version = sys_version s, watches = snd (calls s ! i)\<rparr>))"
  by (auto simp: sys_step_def split: prod.splits)

lemma race_inv_SomeI:
  assumes "length (calls s) = n" and "sys_store s lockKey = Some (RInt v)" and "v \<in> E"
    and "i < n" and "fst (calls s ! i) = Called_watch \<or> fst (calls s ! i) = Finished 1"
    and "\<And>j. j < n \<Longrightarrow> j \<noteq> i \<Longrightarrow>
            waiting E (fst (calls s ! j)) \<or> fst (calls s ! j) = Called_get \<or>
            fst (calls s ! j) = Finished 0"
  shows "race_inv lockKey E n s"
  unfolding race_inv_def using assms by auto

lemma inv_step:
  assumes inv: "race_inv lockKey E n s" and clock: "\<forall>v\<in>E. t1 \<le> v"
  shows "race_inv lockKey E n (sys_step lockKey ttl (i, t1, t2) s) \<and>
         (i < n \<longrightarrow> need (fst (calls (sys_step lockKey ttl (i, t1, t2) s) ! i))
                      \<le> need (fst (calls s ! i)) - 1)"
proof (cases "i < n")
  case False
  then show ?thesis using inv by (simp add: sys_step_out race_inv_def)
next
  case True
  have len: "length (calls s) = n" using inv by (simp add: race_inv_def)
  let ?w = "\<lparr>store = sys_store s, version = sys_version s, watches = snd (calls s ! i)\<rparr>"
  let ?s' = "sys_step lockKey ttl (i, t1, t2) s"
  have self: "fst (calls ?s' ! i) = fst (call_step lockKey ttl t1 t2 (fst (calls s ! i)) ?w)"
    using True len by (simp add: sys_step_self)
  have st: "sys_store ?s' = store (snd (call_step lockKey ttl t1 t2 (fst (calls s ! i)) ?w))"
    using True len by (simp add: sys_step_store)
  have other: "\<And>j. j \<noteq> i \<Longrightarrow> fst (calls ?s' ! j) = fst (calls s ! j)"
    by (simp add: sys_step_other)
  show ?thesis
  proof (cases "sys_store s lockKey")
    case None
    then have all: "\<forall>j<n. waiting E (fst (calls s ! j))"
      using inv by (simp add: race_inv_def)
    then obtain v where v: "v \<in> E" "fst (calls s ! i) = Called_setnx v"
      using True by (auto simp: waiting_def)
    have p': "fst (calls ?s' ! i) = Called_watch"
      using self v None by (simp add: SETNX_def)
    have st': "sys_store ?s' lockKey = Some (RInt v)"
      using st v None by (simp add: SETNX_def set_key_def touch_def)
    have "race_inv lockKey E n ?s'"
    proof (rule race_inv_SomeI [where i = i and v = v])
      fix j assume "j < n" "j \<noteq> i"
      then show "waiting E (fst (calls ?s' ! j)) \<or> fst (calls ?s' ! j) = Called_get \<or>
            fst (calls ?s' ! j) = Finished 0"
        using all other by simp
    qed (use len st' v(1) p' True in auto)
    then show ?thesis using p' True by simp
  next
    case (Some x)
    then obtain v i0 where v: "v \<in> E" "x = RInt v" and i0: "i0 < n"
      and win: "fst (calls s ! i0) = Called_watch \<or> fst (calls s ! i0) = Finished 1"
      and rest: "\<forall>j<n. j \<noteq> i0 \<longrightarrow>
                waiting E (fst (calls s ! j)) \<or> fst (calls s ! j) = Called_get \<or>
                fst (calls s ! j) = Finished 0"
      using inv by (auto simp: race_inv_def)
    have heldv: "held (Some (RInt v)) t1" using clock v(1) by simp
    show ?thesis
    proof (cases "i = i0")
      case True
      have p': "fst (calls ?s' ! i) = Finished 1"
        using self win True by auto
      have st': "sys_store ?s' lockKey = Some x"
        using st win True Some by (auto simp: WATCH_def)
      have "race_inv lockKey E n ?s'"
      proof (rule race_inv_SomeI [where i = i0 and v = v])
        fix j assume "j < n" "j \<noteq> i0"
        then show "waiting E (fst (calls ?s' ! j)) \<or> fst (calls ?s' ! j) = Called_get \<or>
              fst (calls ?s' ! j) = Finished 0"
          using rest other True by simp
      qed (use len st' v p' True i0 in auto)
      then show ?thesis using p' by simp
    next
      case False
      then consider (a) "waiting E (fst (calls s ! i))" | (b) "fst (calls s ! i) = Called_get"
        | (c) "fst (calls s ! i) = Finished 0"
        using rest \<open>i < n\<close> by blast
      then show ?thesis
      proof cases
        case a
        then obtain u where u: "u \<in> E" "fst (calls s ! i) = Called_setnx u"
          by (auto simp: waiting_def)
        have p': "fst (calls ?s' ! i) = Called_get"
          using self u Some by (simp add: SETNX_def)
        have st': "sys_store ?s' lockKey = Some x"
          using st u Some by (simp add: SETNX_def)
        have w0: "fst (calls ?s' ! i0) = fst (calls s ! i0)"
          using other False by simp
        have "race_inv lockKey E n ?s'"
        proof (rule race_inv_SomeI [where i = i0 and v = v])
          fix j assume j: "j < n" "j \<noteq> i0"
          show "waiting E (fst (calls ?s' ! j)) \<or> fst (calls ?s' ! j) = Called_get \<or>
                fst (calls ?s' ! j) = Finished 0"
          proof (cases "j = i")
            case True
            then show ?thesis using p' by simp
          next
            case False
            then show ?thesis using rest other j by simp
          qed
        qed (use len st' v w0 win i0 in auto)
        then show ?thesis using p' u by simp
      next
        case b
        have p': "fst (calls ?s' ! i) = Finished 0"
          using self b Some v heldv by (simp add: GET_def)
        have st': "sys_store ?s' lockKey = Some x"
          using st b Some v heldv by (simp add: GET_def)
        have w0: "fst (calls ?s' ! i0) = fst (calls s ! i0)"
          using other False by simp
        have "race_inv lockKey E n ?s'"
        proof (rule race_inv_SomeI [where i = i0 and v = v])
          fix j assume j: "j < n" "j \<noteq> i0"
          show "waiting E (fst (calls ?s' ! j)) \<or> fst (calls ?s' ! j) = Called_get \<or>
                fst (calls ?s' ! j) = Finished 0"
          proof (cases "j = i")
            case True
            then show ?thesis using p' by simp
          next
            case False
            then show ?thesis using rest other j by simp
          qed
        qed (use len st' v w0 win i0 in auto)
        then show ?thesis using p' by simp
      next
        case c
        have p': "fst (calls ?s' ! i) = Finished 0"
          using self c by simp
        have st': "sys_store ?s' lockKey = Some x"
          using st c Some by simp
        have w0: "fst (calls ?s' ! i0) = fst (calls s ! i0)"
          using other False by simp
        have "race_inv lockKey E n ?s'"
        proof (rule race_inv_SomeI [where i = i0 and v = v])
          fix j assume j: "j < n" "j \<noteq> i0"
          show "waiting E (fst (calls ?s' ! j)) \<or> fst (calls ?s' ! j) = Called_get \<or>
                fst (calls ?s' ! j) = Finished 0"
          proof (cases "j = i")
            case True
            then show ?thesis using p' by simp
          next
            case False
            then show ?thesis using rest other j by simp
          qed
        qed (use len st' v w0 win i0 in auto)
        then show ?thesis using p' by simp
      qed
    qed
  qed
qed

lemma run_inv:
  assumes "race_inv lockKey E n s"
    and "\<forall>x\<in>set sched. \<forall>v\<in>E. fst (snd x) \<le> v"
    and "\<forall>j<n. need (fst (calls s ! j)) \<le> count_list (map fst sched) j"
  shows "race_inv lockKey E n (run lockKey ttl sched s) \<and>
         (\<forall>j<n. need (fst (calls (run lockKey ttl sched s) ! j)) = 0)"
  using assms
proof (induction sched arbitrary: s)
  case Nil
  then show ?case by simp
next
  case (Cons x sched)
  obtain i t1 t2 where x: "x = (i, t1, t2)" by (cases x)
  let ?s' = "sys_step lockKey ttl (i, t1, t2) s"
  have clock: "\<forall>v\<in>E. t1 \<le> v" using Cons.prems(2) x by simp
  have step: "race_inv lockKey E n ?s'"
    and down: "i < n \<longrightarrow> need (fst (calls ?s' ! i)) \<le> need (fst (calls s ! i)) - 1"
    using inv_step [OF Cons.prems(1) clock] by auto
  have rest: "\<forall>x\<in>set sched. \<forall>v\<in>E. fst (snd x) \<le> v"
    using Cons.prems(2) by simp
  have budget: "\<forall>j<n. need (fst (calls ?s' ! j)) \<le> count_list (map fst sched) j"
  proof (intro allI impI)
    fix j assume j: "j < n"
    show "need (fst (calls ?s' ! j)) \<le> count_list (map fst sched) j"
    proof (cases "j = i")
      case True
      have "need (fst (calls s ! i)) \<le> count_list (map fst sched) i + 1"
        using Cons.prems(3) j True x by auto
      then show ?thesis using down j True by simp
    next
      case False
      then have "need (fst (calls s ! j)) \<le> count_list (map fst sched) j"
        using Cons.prems(3) j x by auto
      then show ?thesis using False by (simp add: sys_step_other)
    qed
  qed
  show ?case
    using Cons.IH [OF step rest budget] x by simp
qed

lemma inv_start:
  assumes "store w lockKey = None"
  shows "race_inv lockKey ((\<lambda>t. getTimeOut t ttl) ` set ts) (length ts) (start w ttl ts)"
  using assms by (auto simp: race_inv_def start_def waiting_def)

lemma inv_resolved:
  assumes inv: "race_inv lockKey E n s" and n: "0 < n"
    and fin: "\<forall>j<n. need (fst (calls s ! j)) = 0"
  shows "\<exists>i<n. \<forall>j<n. outcome_of s j = Some (if j = i then 1 else 0)"
proof (cases "sys_store s lockKey")
  case None
  then have "waiting E (fst (calls s ! 0))"
    using inv n by (simp add: race_inv_def)
  then have "need (fst (calls s ! 0)) = 2"
    by (auto simp: waiting_def)
  then show ?thesis using fin n by auto
next
  case (Some x)
  then obtain i0 where i0: "i0 < n"
      and win: "fst (calls s ! i0) = Called_watch \<or> fst (calls s ! i0) = Finished 1"
      and rest: "\<forall>j<n. j \<noteq> i0 \<longrightarrow>
                waiting E (fst (calls s ! j)) \<or> fst (calls s ! j) = Called_get \<or>
                fst (calls s ! j) = Finished 0"
    using inv by (auto simp: race_inv_def)
  have "outcome_of s j = Some (if j = i0 then 1 else 0)" if j: "j < n" for j
  proof (cases "j = i0")
    case True
    then show ?thesis using win by (auto simp: outcome_of_def)
  next
    case False
    have "need (fst (calls s ! j)) = 0" using fin j by simp
    moreover have "waiting E (fst (calls s ! j)) \<or> fst (calls s ! j) = Called_get \<or>
                fst (calls s ! j) = Finished 0"
      using rest j False by simp
    ultimately have "fst (calls s ! j) = Finished 0"
      by (auto simp: waiting_def)
    then show ?thesis using False by (simp add: outcome_of_def)
  qed
  then show ?thesis using i0 by blast
qed

subsection \<open>What the retry wrappers pass on\<close>

text \<open>
  A rejection of \<open>lock\<close> ends \<open>retryableLock\<close> with the same value after that one
  call. A rejection of \<open>readWithLock\<close> other than the contended 0, after any number of
  contended attempts within the budget, ends \<open>readWithRetryableLock\<close> with that value
  and no further attempt. When all \<open>m >= 1\<close> attempts of the budget are contended,
  \<open>readWithRetryableLock\<close> rejects with the contended 0.
\<close>

lemma retry_propagates:
  fixes key :: jsval and ttl_arg ra_arg :: "int option"
  defines "ttl \<equiv> dflt 500 ttl_arg"
    and "ra \<equiv> dflt 150 ra_arg"
  shows
    "(lock key (Some ttl) e w = (Rejected err, w') \<longrightarrow>
        retryableLock key ttl_arg ra_arg mx ((e, slp) # rest) w =
          Some (Rejected err, w', [CallLock key ttl])) \<and>
     (all_contended key fails w \<and> (dflt 0 mx < 1 \<or> int (length fails) < dflt 0 mx) \<and>
      readWithLock key ex now (after_contended key fails w) = (Rejected err, w') \<and>
      err \<noteq> JNum 0 \<longrightarrow>
        readWithRetryableLock key ra_arg mx (fails @ (ex, now, slp) # rest') w =
          Some (Rejected err, w',
                concat (replicate (length fails) [CallRead key, Sleep ra]) @ [CallRead key])) \<and>
     (1 \<le> m \<and> int (length sched) = m \<and> all_contended key sched w \<longrightarrow>
        readWithRetryableLock key ra_arg (Some m) (sched @ extra) w =
          Some (Rejected (JNum 0), after_contended key sched w,
                concat (replicate (length sched) [CallRead key, Sleep ra])))"
proof (intro conjI impI)
  assume "lock key (Some ttl) e w = (Rejected err, w')"
  then show "retryableLock key ttl_arg ra_arg mx ((e, slp) # rest) w =
          Some (Rejected err, w', [CallLock key ttl])"
    by (auto simp: retryableLock_def ttl_def ra_def Let_def)
next
  assume h: "all_contended key fails w \<and> (dflt 0 mx < 1 \<or> int (length fails) < dflt 0 mx) \<and>
      readWithLock key ex now (after_contended key fails w) = (Rejected err, w') \<and>
      err \<noteq> JNum 0"
  then have b: "dflt 0 mx < 1 \<or> 0 + int (length fails) < dflt 0 mx" by simp
  show "readWithRetryableLock key ra_arg mx (fails @ (ex, now, slp) # rest') w =
          Some (Rejected err, w',
                concat (replicate (length fails) [CallRead key, Sleep ra]) @ [CallRead key])"
    using h read_loop_error [of key fails w "dflt 0 mx < 1" 0 "dflt 0 mx" ex now err w' ra slp rest', OF _ b]
    by (simp add: readWithRetryableLock_def ra_def)
next
  assume h: "1 \<le> m \<and> int (length sched) = m \<and> all_contended key sched w"
  then show "readWithRetryableLock key ra_arg (Some m) (sched @ extra) w =
          Some (Rejected (JNum 0), after_contended key sched w,
                concat (replicate (length sched) [CallRead key, Sleep ra]))"
    using read_loop_all_contended [of key sched w m 0 ra extra]
    by (simp add: readWithRetryableLock_def ra_def)
qed

lemma retry_propagates_example:
  "retryableLock (JNum 5) None None (Some 3) [(env0, []), (env0, [])] world_held =
     Some (Rejected keyError, world_held, [CallLock (JNum 5) 500]) \<and>
   readWithRetryableLock (JStr ''k'') None None
       [(JNull, 1000, []), (JObj ''Error'' ''connection lost'', 1200, []), (JNull, 1400, [])]
       world_held =
     Some (Rejected (JObj ''Error'' ''connection lost''), unwatch world_held,
           [CallRead (JStr ''k''), Sleep 150, CallRead (JStr ''k'')]) \<and>
   readWithRetryableLock (JStr ''k'') None (Some 2) [(JNull, 1000, []), (JNull, 1200, [])]
       world_held =
     Some (Rejected (JNum 0), unwatch world_held,
           [CallRead (JStr ''k''), Sleep 150, CallRead (JStr ''k''), Sleep 150])"
proof -
  have l: "lock (JNum 5) (Some 500) env0 world_held = (Rejected keyError, world_held)"
    by (simp add: lock_def)
  have r1: "readWithLock (JStr ''k'') JNull t world_held = (Rejected (JNum 0), unwatch world_held)"
    if "t \<le> 5000" for t
    using that by (simp add: readWithLock_def example_defs store_defs)
  have r2: "readWithLock (JStr ''k'') JNull t (unwatch world_held) = (Rejected (JNum 0), unwatch world_held)"
    if "t \<le> 5000" for t
    using that by (simp add: readWithLock_def example_defs store_defs)
  have r3: "readWithLock (JStr ''k'') (JObj ''Error'' ''connection lost'') 1200 (unwatch world_held) =
      (Rejected (JObj ''Error'' ''connection lost''), unwatch world_held)"
    by (simp add: readWithLock_def)
  show ?thesis
    using retry_propagates [where key = "JNum 5" and ttl_arg = None and ra_arg = None
        and e = env0 and w = world_held and err = keyError and w' = world_held
        and mx = "Some 3" and slp = "[]" and rest = "[(env0, [])]"]
      retry_propagates [where key = "JStr ''k''" and ra_arg = None and w = world_held
        and fails = "[(JNull, 1000, [])]" and mx = None
        and ex = "JObj ''Error'' ''connection lost''" and now = 1200
        and err = "JObj ''Error'' ''connection lost''" and w' = "unwatch world_held"
        and slp = "[]" and rest' = "[(JNull, 1400, [])]"
        and m = 2 and sched = "[(JNull, 1000, []), (JNull, 1200, [])]" and extra = "[]"]
    by (simp add: l r1 r2 r3 numeral_2_eq_2)
qed

section \<open>The claims\<close>

subsection \<open>C1: when a single \<open>lock\<close> acquires\<close>

text \<open>
  C1. For a string key, when no store command fails and the values read at the lock key
  are expiries, one call of \<open>lock\<close> resolves acquired (1) exactly when SETNX on
  \<open>"lock-" + key\<close> succeeds, or the value read by GET is absent or \<open>< now\<close> and
  the previous value returned by GETSET is absent or \<open>< now\<close>; otherwise it resolves
  not acquired (0). It registers a watch on the lock key exactly when it acquires. The
  world it leaves is told in full: a SETNX that succeeds has written the clock's first
  reading plus \<open>ttl\<close> at the lock key; a call that finds the lock held at GET has
  written nothing; a call that goes on to GETSET has written there the reading taken just
  before it plus \<open>ttl\<close>; and the WATCH, when there is one, comes after that write.
  SETNX succeeds exactly when the lock key is absent, and GET and GETSET reply with what
  the store holds at the lock key when they arrive.
\<close>

theorem lock_acquired_iff:
  fixes k :: string and ttl_arg :: "int option" and e :: lock_env and w :: world
  defines "lockKey \<equiv> makeKey k"
    and "ttl \<equiv> dflt 300 ttl_arg"
    and "w2 \<equiv> others (others_get e) w"
  defines "w3 \<equiv> others (others_getset e) w2"
  defines "setnx_reply \<equiv> fst (SETNX lockKey (RInt (t_setnx e + ttl)) w)"
    and "get_reply \<equiv> GET lockKey w2"
    and "getset_reply \<equiv> fst (GETSET lockKey (RInt (t_getset e + ttl)) w3)"
  defines "acquired \<equiv> setnx_reply = 1 \<or>
             absent_or_lt get_reply (t_get e) \<and> absent_or_lt getset_reply (t_prev e)"
  assumes "\<not> truthy (err_setnx e)" and "\<not> truthy (err_get e)" and "\<not> truthy (err_getset e)"
    and "is_expiry get_reply" and "is_expiry getset_reply"
  shows "fst (lock (JStr k) ttl_arg e w) = Resolved (if acquired then 1 else 0) \<and>
         watches (snd (lock (JStr k) ttl_arg e w)) =
           (if acquired then (lockKey, version (snd (lock (JStr k) ttl_arg e w)) lockKey) # watches w
            else watches w) \<and>
         snd (lock (JStr k) ttl_arg e w) =
           (if setnx_reply = 1
            then WATCH lockKey
                   (others (others_watch e) (set_key lockKey (RInt (t_setnx e + ttl)) w))
            else if \<not> absent_or_lt get_reply (t_get e) then w2
            else if \<not> absent_or_lt getset_reply (t_prev e)
            then set_key lockKey (RInt (t_getset e + ttl)) w3
            else WATCH lockKey
                   (others (others_watch e) (set_key lockKey (RInt (t_getset e + ttl)) w3))) \<and>
         (setnx_reply = 1 \<longleftrightarrow> store w lockKey = None) \<and>
         get_reply = store w2 lockKey \<and>
         getset_reply = store w3 lockKey \<and>
         store (set_key lockKey (RInt (t_setnx e + ttl)) w) =
           (store w)(lockKey \<mapsto> RInt (t_setnx e + ttl)) \<and>
         store (set_key lockKey (RInt (t_getset e + ttl)) w3) =
           (store w3)(lockKey \<mapsto> RInt (t_getset e + ttl))"
  using assms
  by (auto simp: lock_def SETNX_def GET_def GETSET_def WATCH_def getTimeOut_def Let_def
      held_absent_or_lt others_watches set_key_def touch_def split: option.splits)

theorem lock_acquired_iff_witness:
  "fst (lock (JStr ''k'') None env0 world_stale) = Resolved 1 \<and>
   watches (snd (lock (JStr ''k'') None env0 world_stale)) = [(''lock-k'', 1)] \<and>
   store (snd (lock (JStr ''k'') None env0 world_stale)) ''lock-k'' = Some (RInt 1302) \<and>
   fst (lock (JStr ''k'') None env0 world0) = Resolved 1 \<and>
   watches (snd (lock (JStr ''k'') None env0 world0)) = [(''lock-k'', 1)] \<and>
   store (snd (lock (JStr ''k'') None env0 world0)) ''lock-k'' = Some (RInt 1300) \<and>
   lock (JStr ''k'') None env0 world_held = (Resolved 0, world_held) \<and>
   fst (lock (JStr ''k'') None env0 (snd (lock (JStr ''k'') None env0 world0))) = Resolved 0"
  using lock_acquired_iff [where k = "''k''" and ttl_arg = None and e = env0 and w = world_stale]
    lock_acquired_iff [where k = "''k''" and ttl_arg = None and e = env0 and w = world0]
    lock_acquired_iff [where k = "''k''" and ttl_arg = None and e = env0 and w = world_held]
  by (simp add: example_defs store_defs lock_def)

subsection \<open>C2: what a failed \<open>lock\<close> writes\<close>

text \<open>
  C2, as stated, fails: a call of \<open>lock\<close> that resolves not acquired may have written
  the lock key. The lock of \<open>k\<close> expired at 100; our GET sees that at 1001; another
  connection then takes the lock until 1500; our GETSET writes 1302 over it, sees the
  previous value 1500 and resolves not acquired. The store holds 1302 where it held 1500.
\<close>

theorem failed_lock_writes_counterexample:
  "fst (lock (JStr ''k'') (Some 300) env_race world_stale) = Resolved 0 \<and>
   store (others (others_getset env_race) (others (others_get env_race) world_stale)) ''lock-k''
     = Some (RInt 1500) \<and>
   store (snd (lock (JStr ''k'') (Some 300) env_race world_stale)) ''lock-k'' = Some (RInt 1302)"
  by (simp add: lock_def env_race_def env0_def world_stale_def store_defs)

text \<open>
  C2, amended. A call of \<open>lock\<close> that resolves not acquired because the value read by
  GET is present and \<open>>= now\<close> writes nothing: it leaves the world as the other
  connections made it. A call that resolves not acquired because the previous value
  returned by GETSET is present and \<open>>= now\<close> has overwritten the lock key with its own
  candidate expiry \<open>now + ttl\<close>; it has written no other key and registered no watch.
\<close>

theorem failed_lock_frame:
  fixes k :: string and ttl_arg :: "int option" and e :: lock_env and w :: world
  defines "lockKey \<equiv> makeKey k"
    and "w2 \<equiv> others (others_get e) w"
  defines "w3 \<equiv> others (others_getset e) w2"
  assumes "fst (lock (JStr k) ttl_arg e w) = Resolved 0"
  shows "(held (GET lockKey w2) (t_get e) \<and> snd (lock (JStr k) ttl_arg e w) = w2) \<or>
         (\<not> held (GET lockKey w2) (t_get e) \<and> held (GET lockKey w3) (t_prev e) \<and>
          snd (lock (JStr k) ttl_arg e w) =
            set_key lockKey (RInt (t_getset e + dflt 300 ttl_arg)) w3 \<and>
          store (snd (lock (JStr k) ttl_arg e w)) =
            (store w3)(lockKey \<mapsto> RInt (t_getset e + dflt 300 ttl_arg)) \<and>
          watches (snd (lock (JStr k) ttl_arg e w)) = watches w)"
  using assms
  by (auto simp: lock_def SETNX_def GET_def GETSET_def getTimeOut_def Let_def
      others_watches set_key_def touch_def split: option.splits if_splits)

theorem failed_lock_frame_witness:
  "snd (lock (JStr ''k'') (Some 300) env_race world_stale) =
     set_key ''lock-k'' (RInt 1302) (others [Set ''lock-k'' (RInt 1500)] world_stale) \<and>
   snd (lock (JStr ''k'') (Some 300) env0 world_held) = world_held"
proof -
  have a: "fst (lock (JStr ''k'') (Some 300) env_race world_stale) = Resolved 0"
    by (simp add: lock_def env_race_def env0_def world_stale_def store_defs)
  have b: "fst (lock (JStr ''k'') (Some 300) env0 world_held) = Resolved 0"
    by (simp add: lock_def env0_def world_held_def store_defs)
  show ?thesis
    using failed_lock_frame [OF a] failed_lock_frame [OF b]
    by (simp add: env_race_def env0_def world_stale_def world_held_def store_defs)
qed

subsection \<open>C3: how contention is told from a store error\<close>

text \<open>
  C3, as stated, fails: the contended failure is the number 0, and the retry wrapper tells
  it from other failures by the comparison \<open>err !== 0\<close>. A store error that is the
  number 7 has the type of the contended outcome, and the two are classified differently:
  \<open>readWithRetryableLock\<close> re-raises the 7 after one call, and treats the 0 as
  contention. (The \<open>err\<close> of a callback is whatever the client that was handed to the
  constructor passes; the code tests only that it is truthy.)
\<close>

theorem contended_same_type_counterexample:
  "readWithLock (JStr ''k'') (JNum 7) 1000 world_held = (Rejected (JNum 7), world_held) \<and>
   fst (readWithLock (JStr ''k'') JNull 1000 world_held) = Rejected (JNum 0) \<and>
   typeof (JNum 7) = typeof (JNum 0) \<and>
   strict_eq_zero (JNum 0) \<and> \<not> strict_eq_zero (JNum 7) \<and>
   readWithRetryableLock (JStr ''k'') None (Some 1) [(JNum 7, 1000, [])] world_held =
     Some (Rejected (JNum 7), world_held, [CallRead (JStr ''k'')]) \<and>
   readWithRetryableLock (JStr ''k'') None (Some 1) [(JNull, 1000, [])] world_held =
     Some (Rejected (JNum 0), unwatch world_held, [CallRead (JStr ''k''), Sleep 150])"
  by (simp add: readWithLock_def readWithRetryableLock_def world_held_def store_defs)

text \<open>
  C3, amended. The contended failure of \<open>readWithLock\<close> is the number 0, told from a
  store error by its value. For a string key \<open>readWithLock\<close> rejects with the store
  error when the transaction met one, rejects with 0 when it met none and aborted or found
  the lock held, and resolves otherwise; so it rejects with 0 exactly when the transaction
  aborted or found the lock held. A store error it passes on is truthy, hence not 0. And
  \<open>readWithRetryableLock\<close> retries a failure exactly when it is strictly equal to 0,
  re-raising every other value at once.
\<close>

theorem contended_by_value:
  "readWithLock (JStr k) err now w =
     (if truthy err then (Rejected err, w)
      else if dirty w \<or> held (store w (makeKey k)) now then (Rejected (JNum 0), unwatch w)
      else (Resolved (store w k), unwatch w)) \<and>
   (truthy err \<longrightarrow> err \<noteq> JNum 0) \<and>
   (readWithLock key err now w = (Rejected x, w') \<longrightarrow>
      (x = JNum 0 \<longleftrightarrow>
         (\<exists>k. key = JStr k \<and> \<not> truthy err \<and> (dirty w \<or> held (store w (makeKey k)) now))) \<and>
      (truthy err \<and> typeof key = ''string'' \<longrightarrow> x = err \<and> x \<noteq> JNum 0) \<and>
      readWithRetryableLock key ra mx ((err, now, slp) # rest) w =
        (if x = JNum 0
         then (case readWithRetryableLock_loop (dflt 0 mx < 1) (dflt 0 mx) key (dflt 150 ra) 1 rest
                      (others slp w') of
                 None \<Rightarrow> None
               | Some (out, w'', tr) \<Rightarrow>
                   Some (out, w'', CallRead key # Sleep (dflt 150 ra) # tr))
         else Some (Rejected x, w', [CallRead key])))"
proof (intro conjI impI)
  show "readWithLock (JStr k) err now w =
     (if truthy err then (Rejected err, w)
      else if dirty w \<or> held (store w (makeKey k)) now then (Rejected (JNum 0), unwatch w)
      else (Resolved (store w k), unwatch w))"
    by (auto simp: readWithLock_def MULTI_GET_GET_EXEC_def GET_def)
next
  assume "truthy err"
  then show "err \<noteq> JNum 0" by auto
next
  assume r: "readWithLock key err now w = (Rejected x, w')"
  then show "x = JNum 0 \<longleftrightarrow>
         (\<exists>k. key = JStr k \<and> \<not> truthy err \<and> (dirty w \<or> held (store w (makeKey k)) now))"
    by (cases key)
      (auto simp: readWithLock_def MULTI_GET_GET_EXEC_def GET_def keyError_def
        split: if_splits)
  from r show "readWithRetryableLock key ra mx ((err, now, slp) # rest) w =
        (if x = JNum 0
         then (case readWithRetryableLock_loop (dflt 0 mx < 1) (dflt 0 mx) key (dflt 150 ra) 1 rest
                      (others slp w') of
                 None \<Rightarrow> None
               | Some (out, w'', tr) \<Rightarrow>
                   Some (out, w'', CallRead key # Sleep (dflt 150 ra) # tr))
         else Some (Rejected x, w', [CallRead key]))"
    by (auto simp: readWithRetryableLock_def strict_eq_zero_iff Let_def)
next
  assume r: "readWithLock key err now w = (Rejected x, w')"
    and t: "truthy err \<and> typeof key = ''string''"
  then show "x = err" and "x \<noteq> JNum 0"
    by (cases key; auto simp: readWithLock_def)+
qed

theorem contended_by_value_witness:
  "readWithLock (JStr ''k'') JNull 1000 world_held = (Rejected (JNum 0), unwatch world_held) \<and>
   readWithLock (JStr ''k'') JNull 1000 world_touched = (Rejected (JNum 0), unwatch world_touched) \<and>
   \<not> held (store world_touched ''lock-k'') 1000 \<and>
   readWithRetryableLock (JStr ''k'') None None [(JNull, 1000, []), (JNull, 6000, [])] world_held =
     Some (Resolved (Some (RTxt ''v'' NaN)), unwatch world_held,
           [CallRead (JStr ''k''), Sleep 150, CallRead (JStr ''k'')]) \<and>
   readWithRetryableLock (JStr ''k'') None None
       [(JObj ''Error'' ''connection lost'', 1000, []), (JNull, 1200, [])] world_held =
     Some (Rejected (JObj ''Error'' ''connection lost''), world_held, [CallRead (JStr ''k'')])"
proof -
  have held: "dirty world_held \<or> held (store world_held (makeKey ''k'')) 1000"
    by (simp add: example_defs store_defs)
  have touched: "dirty world_touched"
    by (simp add: example_defs store_defs)
  have stale: "\<not> held (store world_touched ''lock-k'') 1000"
    by (simp add: example_defs store_defs)
  have r1: "readWithLock (JStr ''k'') JNull 1000 world_held = (Rejected (JNum 0), unwatch world_held)"
    using contended_by_value [where k = "''k''" and err = JNull and now = 1000 and w = world_held]
      held by simp
  have r2: "readWithLock (JStr ''k'') JNull 1000 world_touched =
      (Rejected (JNum 0), unwatch world_touched)"
    using contended_by_value [where k = "''k''" and err = JNull and now = 1000 and w = world_touched]
      touched by simp
  have r3: "readWithLock (JStr ''k'') (JObj ''Error'' ''connection lost'') 1000 world_held =
      (Rejected (JObj ''Error'' ''connection lost''), world_held)"
    using contended_by_value [where k = "''k''" and err = "JObj ''Error'' ''connection lost''"
        and now = 1000 and w = world_held]
    by simp
  have r4: "readWithLock (JStr ''k'') JNull 6000 (unwatch world_held) =
      (Resolved (Some (RTxt ''v'' NaN)), unwatch world_held)"
    using contended_by_value [where k = "''k''" and err = JNull and now = 6000
        and w = "unwatch world_held"]
    by (simp add: example_defs store_defs)
  have w1: "readWithRetryableLock (JStr ''k'') None None [(JNull, 1000, []), (JNull, 6000, [])]
      world_held =
     Some (Resolved (Some (RTxt ''v'' NaN)), unwatch world_held,
           [CallRead (JStr ''k''), Sleep 150, CallRead (JStr ''k'')])"
    using contended_by_value [where key = "JStr ''k''" and err = JNull and now = 1000
        and w = world_held and x = "JNum 0" and w' = "unwatch world_held" and ra = None
        and mx = None and slp = "[]" and rest = "[(JNull, 6000, [])]"] r1 r4
    by simp
  have w2: "readWithRetryableLock (JStr ''k'') None None
       [(JObj ''Error'' ''connection lost'', 1000, []), (JNull, 1200, [])] world_held =
     Some (Rejected (JObj ''Error'' ''connection lost''), world_held, [CallRead (JStr ''k'')])"
    using contended_by_value [where key = "JStr ''k''" and err = "JObj ''Error'' ''connection lost''"
        and now = 1000 and w = world_held and x = "JObj ''Error'' ''connection lost''"
        and w' = world_held and ra = None and mx = None and slp = "[]"
        and rest = "[(JNull, 1200, [])]"] r3
    by simp
  show ?thesis using r1 r2 stale w1 w2 by simp
qed

subsection \<open>C4: \<open>readWithLock\<close>\<close>

text \<open>
  C4. For a string key, when the transaction meets no store error and the clock reads a
  positive time, \<open>readWithLock\<close> fails with the contended outcome exactly when the
  transaction aborts or the lock key's value is present and \<open>>= now\<close>; in every other
  case it resolves with the value stored at the logical key, which may be absent. Either
  way the transaction has used up the connection's watches. The lock key's value is
  compared as JavaScript converts it, whatever string it is: \<open>5000.5\<close> holds the lock
  at 1000 and no longer at 5001.
\<close>

theorem readWithLock_contended_iff:
  "\<not> truthy err \<Longrightarrow> 0 < now \<Longrightarrow>
     readWithLock (JStr k) err now w =
       (if dirty w \<or> present_ge (store w (makeKey k)) now then Rejected (JNum 0)
        else Resolved (store w k), unwatch w)"
  by (auto simp: readWithLock_def MULTI_GET_GET_EXEC_def GET_def held_present_ge)

theorem readWithLock_contended_iff_witness:
  "readWithLock (JStr ''k'') JNull 1000 world_held = (Rejected (JNum 0), unwatch world_held) \<and>
   readWithLock (JStr ''k'') JNull 6000 world_held =
     (Resolved (Some (RTxt ''v'' NaN)), unwatch world_held) \<and>
   readWithLock (JStr ''k'') JNull 1000 world_fraction =
     (Rejected (JNum 0), unwatch world_fraction) \<and>
   readWithLock (JStr ''k'') JNull 5001 world_fraction = (Resolved None, unwatch world_fraction)"
  using readWithLock_contended_iff [of JNull 1000 "''k''" world_held]
    readWithLock_contended_iff [of JNull 6000 "''k''" world_held]
    readWithLock_contended_iff [of JNull 1000 "''k''" world_fraction]
    readWithLock_contended_iff [of JNull 5001 "''k''" world_fraction]
  by (simp add: world_held_def world_fraction_def dirty_def makeKey_def)

subsection \<open>C5: \<open>unlock\<close>\<close>

text \<open>
  C5. For a string key, when the transaction meets no store error, \<open>unlock\<close>
  resolves 0 when the transaction aborts, leaving the store as it is, and otherwise resolves
  the number of keys deleted: 1 when the lock key was there, which is then gone, and 0 when
  it was not. In particular \<open>unlock\<close> of a key whose lock key is absent resolves 0.
\<close>

theorem unlock_released_count:
  "\<not> truthy err \<Longrightarrow>
     fst (unlock (JStr k) err w) =
       Resolved (if dirty w then 0 else if store w (makeKey k) = None then 0 else 1) \<and>
     store (snd (unlock (JStr k) err w)) =
       (if dirty w then store w else (store w)(makeKey k := None)) \<and>
     (store w (makeKey k) = None \<longrightarrow> fst (unlock (JStr k) err w) = Resolved 0)"
  by (auto simp: unlock_def MULTI_DEL_EXEC_def DEL_def unwatch_def touch_def split: option.splits)

theorem unlock_released_count_witness:
  "fst (unlock (JStr ''k'') JNull world0) = Resolved 0 \<and>
   store (snd (unlock (JStr ''k'') JNull world0)) = store world0"
  using unlock_released_count [of JNull "''k''" world0]
  by (simp add: world0_def dirty_def makeKey_def)

subsection \<open>C6: the attempts of \<open>retryableLock\<close>\<close>

text \<open>
  C6. With \<open>maxAttempts = m >= 1\<close> and every attempt resolving not acquired,
  \<open>retryableLock\<close> calls \<open>lock\<close> exactly \<open>m\<close> times, each call followed by a sleep
  of \<open>retryAfter\<close>, and resolves not acquired; it uses no more of the schedule. With
  \<open>maxAttempts\<close> 0 or left out it has not settled as long as every attempt resolves not
  acquired, however long the schedule, and it resolves acquired at the first attempt that
  acquires.
\<close>

theorem retryableLock_attempts:
  fixes key :: jsval and ttl_arg ra_arg :: "int option"
  defines "ttl \<equiv> dflt 500 ttl_arg"
    and "ra \<equiv> dflt 150 ra_arg"
  shows
    "(1 \<le> m \<and> int (length sched) = m \<and> all_not_acquired key ttl sched w \<longrightarrow>
        retryableLock key ttl_arg ra_arg (Some m) (sched @ extra) w =
          Some (Resolved 0, after_not_acquired key ttl sched w,
                concat (replicate (nat m) [CallLock key ttl, Sleep ra])) \<and>
        count_list (concat (replicate (nat m) [CallLock key ttl, Sleep ra])) (CallLock key ttl)
          = nat m) \<and>
     ((mx = None \<or> mx = Some 0) \<and> all_not_acquired key ttl sched w \<longrightarrow>
        retryableLock key ttl_arg ra_arg mx sched w = None) \<and>
     ((mx = None \<or> mx = Some 0) \<and> all_not_acquired key ttl sched w \<and>
      fst (lock key (Some ttl) e (after_not_acquired key ttl sched w)) = Resolved 1 \<longrightarrow>
        retryableLock key ttl_arg ra_arg mx (sched @ (e, slp) # extra) w =
          Some (Resolved 1, snd (lock key (Some ttl) e (after_not_acquired key ttl sched w)),
                concat (replicate (length sched) [CallLock key ttl, Sleep ra])
                  @ [CallLock key ttl]))"
proof (intro conjI impI)
  assume h: "1 \<le> m \<and> int (length sched) = m \<and> all_not_acquired key ttl sched w"
  then have n: "nat m = length sched" by auto
  show "retryableLock key ttl_arg ra_arg (Some m) (sched @ extra) w =
          Some (Resolved 0, after_not_acquired key ttl sched w,
                concat (replicate (nat m) [CallLock key ttl, Sleep ra]))"
    using h loop_all_not_acquired [of key ttl sched w m 0 ra extra]
    by (simp add: retryableLock_def n ttl_def ra_def)
  show "count_list (concat (replicate (nat m) [CallLock key ttl, Sleep ra])) (CallLock key ttl)
          = nat m"
    by (rule count_rounds) simp
next
  assume h: "(mx = None \<or> mx = Some 0) \<and> all_not_acquired key ttl sched w"
  then show "retryableLock key ttl_arg ra_arg mx sched w = None"
    using loop_forever [of key ttl sched w]
    by (auto simp: retryableLock_def ttl_def ra_def)
next
  assume h: "(mx = None \<or> mx = Some 0) \<and> all_not_acquired key ttl sched w \<and>
      fst (lock key (Some ttl) e (after_not_acquired key ttl sched w)) = Resolved 1"
  then show "retryableLock key ttl_arg ra_arg mx (sched @ (e, slp) # extra) w =
          Some (Resolved 1, snd (lock key (Some ttl) e (after_not_acquired key ttl sched w)),
                concat (replicate (length sched) [CallLock key ttl, Sleep ra])
                  @ [CallLock key ttl])"
    using loop_until_acquired [of key ttl sched w e]
    by (auto simp: retryableLock_def ttl_def ra_def)
qed

theorem retryableLock_attempts_witness:
  "retryableLock (JStr ''k'') None None (Some 3) [(env0, []), (env0, []), (env0, [])] world_held =
     Some (Resolved 0, world_held,
           [CallLock (JStr ''k'') 500, Sleep 150, CallLock (JStr ''k'') 500, Sleep 150,
            CallLock (JStr ''k'') 500, Sleep 150]) \<and>
   retryableLock (JStr ''k'') None None None [(env0, []), (env0, [])] world_held = None \<and>
   fst (the (retryableLock (JStr ''k'') None None None
              [(env0, []), (env0, []), (env_late, [])] world_held)) = Resolved 1"
proof -
  have l0: "lock (JStr ''k'') (Some 500) env0 world_held = (Resolved 0, world_held)"
    by (simp add: lock_def example_defs store_defs)
  have l1: "fst (lock (JStr ''k'') (Some 500) env_late world_held) = Resolved 1"
    by (simp add: lock_def example_defs store_defs)
  have f3: "all_not_acquired (JStr ''k'') 500 [(env0, []), (env0, []), (env0, [])] world_held"
    by (simp add: l0)
  have f2: "all_not_acquired (JStr ''k'') 500 [(env0, []), (env0, [])] world_held"
    by (simp add: l0)
  have a2: "after_not_acquired (JStr ''k'') 500 [(env0, []), (env0, [])] world_held = world_held"
    by (simp add: l0)
  have a3: "after_not_acquired (JStr ''k'') 500 [(env0, []), (env0, []), (env0, [])] world_held = world_held"
    by (simp add: l0)
  have r3: "replicate (nat 3) x = [x, x, x]" for x :: "event list"
    by (simp add: numeral_3_eq_3)
  show ?thesis
    using retryableLock_attempts [where m = 3 and sched = "[(env0, []), (env0, []), (env0, [])]"
        and key = "JStr ''k''" and ttl_arg = None and ra_arg = None and w = world_held
        and extra = "[]" and mx = None and e = env_late and slp = "[]"]
      retryableLock_attempts [where m = 2 and sched = "[(env0, []), (env0, [])]"
        and key = "JStr ''k''" and ttl_arg = None and ra_arg = None and w = world_held
        and extra = "[]" and mx = None and e = env_late and slp = "[]"]
    by (simp add: l0 l1 numeral_3_eq_3 numeral_2_eq_2)
qed

subsection \<open>C7: what the retry wrappers pass on\<close>

text \<open>
  C7 fails on the code for a store error inside \<open>lock\<close>. The store fails the SETNX
  (or the GET, or the GETSET) of the first attempt with an error. The \<open>await\<close> throws
  inside the \<open>async\<close> executor of \<open>lock\<close>, whose promise is then neither resolved
  nor rejected, and \<open>retryableLock\<close>, waiting for it inside its \<open>try\<close>, never
  settles either: the failure does not reach the caller. \<open>readWithRetryableLock\<close>
  does pass the same store error on at once.
\<close>

theorem store_fault_not_propagated:
  "lock (JStr ''k'') (Some 500) env_fault_setnx world0 = (Unsettled, world0) \<and>
   retryableLock (JStr ''k'') None None (Some 3)
       [(env_fault_setnx, []), (env0, []), (env0, [])] world0 =
     Some (Unsettled, world0, [CallLock (JStr ''k'') 500]) \<and>
   retryableLock (JStr ''k'') None None (Some 3)
       [(env_fault_get, []), (env0, []), (env0, [])] world_held =
     Some (Unsettled, world_held, [CallLock (JStr ''k'') 500]) \<and>
   retryableLock (JStr ''k'') None None (Some 3)
       [(env_fault_getset, []), (env0, []), (env0, [])] world_stale =
     Some (Unsettled, world_stale, [CallLock (JStr ''k'') 500]) \<and>
   readWithRetryableLock (JStr ''k'') None (Some 3)
       [(JObj ''Error'' ''connection lost'', 1000, []), (JNull, 1200, [])] world0 =
     Some (Rejected (JObj ''Error'' ''connection lost''), world0, [CallRead (JStr ''k'')])"
  by (simp add: lock_def retryableLock_def readWithRetryableLock_def readWithLock_def
      example_defs store_defs)

subsection \<open>C8: a key that is no string\<close>

text \<open>
  C8. For a key that is not a string, \<open>lock\<close>, \<open>unlock\<close> and \<open>readWithLock\<close>
  reject with the key error and leave the world (the store, the versions, the
  connection's watches) exactly as it was.
\<close>

theorem key_type_error:
  "typeof key \<noteq> ''string'' \<Longrightarrow>
     lock key ttl_arg e w = (Rejected keyError, w) \<and>
     unlock key err w = (Rejected keyError, w) \<and>
     readWithLock key err now w = (Rejected keyError, w)"
  by (cases key) (simp_all add: lock_def unlock_def readWithLock_def)

theorem key_type_error_witness:
  "lock (JNum 123) None env0 world_held = (Rejected keyError, world_held) \<and>
   unlock (JNum 123) JNull world_held = (Rejected keyError, world_held) \<and>
   readWithLock (JNum 123) JNull 1000 world_held = (Rejected keyError, world_held)"
  using key_type_error [of "JNum 123" None env0 world_held JNull 1000] by simp

subsection \<open>C9: calls racing for a fresh key\<close>

text \<open>
  C9. Any number of calls \<open>lock(K, ttl)\<close> race for a key whose lock key is absent;
  each has read the clock and sent its SETNX. Whatever the order in which the server runs
  their commands, when no clock reading of the race is past a candidate expiry and every
  call has had two commands served, every call has resolved: exactly one acquired, and
  every other one not acquired.
\<close>

theorem race_one_winner:
  assumes fresh: "store w (makeKey k) = None"
    and some: "ts \<noteq> []"
    and clock: "\<forall>x\<in>set sched. \<forall>t\<in>set ts. fst (snd x) \<le> getTimeOut t ttl"
    and served: "\<forall>j<length ts. 2 \<le> count_list (map fst sched) j"
  shows "\<exists>i<length ts. \<forall>j<length ts.
           outcome_of (run (makeKey k) ttl sched (start w ttl ts)) j =
             Some (if j = i then 1 else 0)"
proof -
  let ?E = "(\<lambda>t. getTimeOut t ttl) ` set ts"
  have inv0: "race_inv (makeKey k) ?E (length ts) (start w ttl ts)"
    using fresh by (rule inv_start)
  have clock': "\<forall>x\<in>set sched. \<forall>v\<in>?E. fst (snd x) \<le> v"
    using clock by auto
  have budget: "\<forall>j<length ts. need (fst (calls (start w ttl ts) ! j)) \<le> count_list (map fst sched) j"
    using served by (simp add: start_def)
  have "race_inv (makeKey k) ?E (length ts) (run (makeKey k) ttl sched (start w ttl ts)) \<and>
        (\<forall>j<length ts. need (fst (calls (run (makeKey k) ttl sched (start w ttl ts)) ! j)) = 0)"
    using inv0 clock' budget by (rule run_inv)
  then show ?thesis
    using inv_resolved [of "makeKey k" ?E "length ts"] some by simp
qed

theorem race_one_winner_witness:
  "(\<exists>i<3. \<forall>j<3. outcome_of (run ''lock-k'' 300 race_sched (start world0 300 [1000, 1001, 1002])) j
              = Some (if j = i then 1 else 0)) \<and>
   map (outcome_of (run ''lock-k'' 300 race_sched (start world0 300 [1000, 1001, 1002]))) [0, 1, 2]
     = [Some 0, Some 1, Some 0]"
proof -
  have served: "\<forall>j<length [1000, 1001, 1002 :: int]. 2 \<le> count_list (map fst race_sched) j"
    by (auto simp: race_sched_def less_Suc_eq numeral_3_eq_3)
  have clock: "\<forall>x\<in>set race_sched. \<forall>t\<in>set [1000, 1001, 1002]. fst (snd x) \<le> getTimeOut t 300"
    by (simp add: race_sched_def getTimeOut_def)
  have fresh: "store world0 (makeKey ''k'') = None"
    by (simp add: world0_def)
  have "\<exists>i<length [1000, 1001, 1002 :: int]. \<forall>j<length [1000, 1001, 1002 :: int].
           outcome_of (run (makeKey ''k'') 300 race_sched (start world0 300 [1000, 1001, 1002])) j =
             Some (if j = i then 1 else 0)"
    using fresh _ clock served by (rule race_one_winner) simp
  then have a: "\<exists>i<3. \<forall>j<3. outcome_of (run ''lock-k'' 300 race_sched (start world0 300 [1000, 1001, 1002])) j
              = Some (if j = i then 1 else 0)"
    by (simp only: makeKey_def append.simps list.size) (simp only: numeral_3_eq_3 One_nat_def add_Suc_right add_0_right)
  have b: "map (outcome_of (run ''lock-k'' 300 race_sched (start world0 300 [1000, 1001, 1002]))) [0, 1, 2]
     = [Some 0, Some 1, Some 0]"
    by (simp add: race_sched_def start_def world0_def sys_step_def outcome_of_def store_defs)
  show ?thesis using a b by simp
qed

subsection \<open>C10: the default \<open>ttl\<close>\<close>

text \<open>
  C10. With \<open>ttl\<close> left out, \<open>lock\<close> runs with 300 and \<open>retryableLock\<close> with
  500, which it hands to every call of \<open>lock\<close> it makes. On a key that is free they
  write different expiries: the clock's reading plus 300 and plus 500.
\<close>

theorem default_ttl:
  "lock key None e w = lock key (Some 300) e w \<and>
   retryableLock key None ra_arg mx sched w = retryableLock key (Some 500) ra_arg mx sched w \<and>
   (\<forall>out w' tr k t. retryableLock key None ra_arg mx sched w = Some (out, w', tr) \<and>
        CallLock k t \<in> set tr \<longrightarrow> t = 500) \<and>
   (store w (makeKey k) = None \<and> \<not> truthy (err_setnx e) \<and> others_watch e = [] \<longrightarrow>
      store (snd (lock (JStr k) None e w)) (makeKey k) = Some (RInt (t_setnx e + 300)) \<and>
      (\<exists>w' tr. retryableLock (JStr k) None ra_arg mx ((e, slp) # rest) w =
                  Some (Resolved 1, w', tr) \<and>
               store w' (makeKey k) = Some (RInt (t_setnx e + 500))) \<and>
      RInt (t_setnx e + 300) \<noteq> RInt (t_setnx e + 500))"
proof (intro conjI allI impI)
  show "lock key None e w = lock key (Some 300) e w"
    by (simp add: lock_def)
  show "retryableLock key None ra_arg mx sched w = retryableLock key (Some 500) ra_arg mx sched w"
    by (simp add: retryableLock_def)
next
  fix out w' tr k t
  assume "retryableLock key None ra_arg mx sched w = Some (out, w', tr) \<and> CallLock k t \<in> set tr"
  then show "t = 500"
    using loop_trace [of "dflt 0 mx < 1" "dflt 0 mx" key 500 "dflt 150 ra_arg" 0 sched w out w' tr]
    by (auto simp: retryableLock_def Let_def)
next
  assume h: "store w (makeKey k) = None \<and> \<not> truthy (err_setnx e) \<and> others_watch e = []"
  then show "store (snd (lock (JStr k) None e w)) (makeKey k) = Some (RInt (t_setnx e + 300))"
    by (simp add: lock_def store_defs)
  have "lock (JStr k) (Some 500) e w =
          (Resolved 1, WATCH (makeKey k) (set_key (makeKey k) (RInt (t_setnx e + 500)) w))"
    using h by (simp add: lock_def Let_def SETNX_def getTimeOut_def)
  then show "\<exists>w' tr. retryableLock (JStr k) None ra_arg mx ((e, slp) # rest) w =
                  Some (Resolved 1, w', tr) \<and>
               store w' (makeKey k) = Some (RInt (t_setnx e + 500))"
    by (auto simp: retryableLock_def Let_def WATCH_def set_key_def touch_def)
  show "RInt (t_setnx e + 300) \<noteq> RInt (t_setnx e + 500)"
    by simp
qed

theorem default_ttl_witness:
  "store (snd (lock (JStr ''k'') None env0 world0)) ''lock-k'' = Some (RInt 1300) \<and>
   (\<exists>w' tr. retryableLock (JStr ''k'') None None None [(env0, [])] world0 =
               Some (Resolved 1, w', tr) \<and>
             store w' ''lock-k'' = Some (RInt 1500))"
proof -
  have h: "store world0 (makeKey ''k'') = None \<and> \<not> truthy (err_setnx env0) \<and>
           others_watch env0 = []"
    by (simp add: example_defs)
  have t: "t_setnx env0 = 1000" and m: "makeKey ''k'' = ''lock-k''"
    by (simp_all add: example_defs makeKey_def)
  from h default_ttl [where key = "JStr ''k''" and k = "''k''" and e = env0 and w = world0
      and ra_arg = None and mx = None and slp = "[]" and rest = "[]" and sched = "[]"]
  have "store (snd (lock (JStr ''k'') None env0 world0)) (makeKey ''k'') =
          Some (RInt (t_setnx env0 + 300)) \<and>
        (\<exists>w' tr. retryableLock (JStr ''k'') None None None [(env0, [])] world0 =
                  Some (Resolved 1, w', tr) \<and>
               store w' (makeKey ''k'') = Some (RInt (t_setnx env0 + 500)))"
    by blast
  then show ?thesis
    by (simp only: t m) simp
qed

end
